theory Spec2Isabelle
  imports Main "HOL-Library.Word"
begin

unbundle bit_operations_syntax

section \<open>Python string primitives used by ts3.py\<close>

text \<open>
  The program is Python 2: a \<open>str\<close> is a sequence of bytes, modelled as \<open>string\<close>
  (a list of 8-bit \<open>char\<close>). The backslash has no literal form in a HOL string and is
  written by its code.
\<close>

abbreviation bslash :: char where
  "bslash \<equiv> CHR 0x5C"

text \<open>
  \<open>s.replace(old, new)\<close>: one scan from the left, replacing every occurrence of \<open>old\<close>
  that does not overlap the one before it; the replacement text is not scanned again.
  With an empty \<open>old\<close>, Python puts \<open>new\<close> before every character and at the end.
\<close>

fun scan_replace :: "string \<Rightarrow> string \<Rightarrow> string \<Rightarrow> string" where
  "scan_replace old new [] = []"
| "scan_replace old new (c # cs) =
     (if take (length old) (c # cs) = old
      then new @ scan_replace old new (drop (length old - 1) cs)
      else c # scan_replace old new cs)"

definition str_replace :: "string \<Rightarrow> string \<Rightarrow> string \<Rightarrow> string" where
  "str_replace old new s =
     (if old = [] then new @ concat (map (\<lambda>c. c # new) s) else scan_replace old new s)"

text \<open>\<open>s.split(sep)\<close> for a one-character separator: never an empty result list.\<close>

fun split_chr :: "char \<Rightarrow> string \<Rightarrow> string list" where
  "split_chr sep [] = [[]]"
| "split_chr sep (c # cs) =
     (if c = sep then [] # split_chr sep cs
      else (case split_chr sep cs of
              [] \<Rightarrow> [[c]]
            | w # ws \<Rightarrow> (c # w) # ws))"

text \<open>\<open>sep.join(xs)\<close>.\<close>

fun join :: "string \<Rightarrow> string list \<Rightarrow> string" where
  "join sep [] = []"
| "join sep [x] = x"
| "join sep (x # y # ys) = x @ sep @ join sep (y # ys)"

text \<open>
  \<open>s.strip()\<close> removes leading and trailing whitespace; for a Python 2 \<open>str\<close> the
  whitespace characters are tab, newline, vertical tab, form feed, carriage return and
  space.
\<close>

definition isspace :: "char \<Rightarrow> bool" where
  "isspace c = (c \<in> {CHR 0x09, CHR 0x0A, CHR 0x0B, CHR 0x0C, CHR 0x0D, CHR 0x20})"

definition strip :: "string \<Rightarrow> string" where
  "strip s = rev (dropWhile isspace (rev (dropWhile isspace s)))"

text \<open>\<open>"%d" % n\<close>: the decimal digits of an integer, with a minus sign when negative.\<close>

definition digit_chars :: string where
  "digit_chars = ''0123456789''"

fun show_nat :: "nat \<Rightarrow> string" where
  "show_nat n =
     (if n < 10 then [digit_chars ! n]
      else show_nat (n div 10) @ [digit_chars ! (n mod 10)])"

declare show_nat.simps [simp del]

definition show_int :: "int \<Rightarrow> string" where
  "show_int i = (if i < 0 then CHR ''-'' # show_nat (nat (- i)) else show_nat (nat i))"

section \<open>The escape table and the two escaping functions\<close>

text \<open>A value handed to the escaping functions is a \<open>str\<close> or an \<open>int\<close>.\<close>

datatype pyval = PStr string | PInt int

text \<open>
  The dictionary \<open>ts3_escape\<close>, in the order of the source text: literal character,
  then its two-character escape token (a raw string: backslash and a letter).
\<close>

definition ts3_escape :: "(string \<times> string) list" where
  "ts3_escape =
     [(''/'', [bslash, CHR ''/'']),
      ('' '', [bslash, CHR ''s'']),
      (''|'', [bslash, CHR ''p'']),
      ([CHR 0x07], [bslash, CHR ''a'']),
      ([CHR 0x08], [bslash, CHR ''b'']),
      ([CHR 0x0C], [bslash, CHR ''f'']),
      ([CHR 0x0A], [bslash, CHR ''n'']),
      ([CHR 0x0D], [bslash, CHR ''r'']),
      ([CHR 0x09], [bslash, CHR ''t'']),
      ([CHR 0x0B], [bslash, CHR ''v''])]"

text \<open>
  \<open>_escape_str\<close> and \<open>_unescape_str\<close> loop over \<open>ts3_escape.iteritems()\<close>. Python 2
  fixes no iteration order for a dictionary, so the loops are modelled for any
  enumeration \<open>items\<close> of the table; \<open>escape_str\<close> and \<open>unescape_str\<close> take the
  order of the source text. The lemmas \<open>escape_items_any_order\<close> and
  \<open>unescape_items_any_order\<close> below show that every enumeration gives the same result.
\<close>

definition escape_items :: "(string \<times> string) list \<Rightarrow> pyval \<Rightarrow> string" where
  "escape_items items v =
     (case v of
        PInt n \<Rightarrow> show_int n
      | PStr s \<Rightarrow>
          fold (\<lambda>(i, j) acc. str_replace i j acc) items
            (str_replace [bslash] [bslash, bslash] s))"

definition unescape_items :: "(string \<times> string) list \<Rightarrow> pyval \<Rightarrow> string" where
  "unescape_items items v =
     (case v of
        PInt n \<Rightarrow> show_int n
      | PStr s \<Rightarrow>
          fold (\<lambda>(i, j) acc. str_replace j i acc) items
            (str_replace [bslash, bslash] [bslash] s))"

definition escape_str :: "pyval \<Rightarrow> string" where
  "escape_str = escape_items ts3_escape"

definition unescape_str :: "pyval \<Rightarrow> string" where
  "unescape_str = unescape_items ts3_escape"

section \<open>Exceptions\<close>

text \<open>
  The exceptions the modelled code can raise. \<open>ConnectionError\<close> is the class the
  module declares, with its \<open>ip\<close> and \<open>port\<close>; \<open>SocketError\<close> stands for whatever
  the socket library raises, with its message.
\<close>

datatype error =
    IndexError
  | KeyError
  | AttributeError
  | UnboundLocalError
  | ConnectionError string nat
  | SocketError string

section \<open>construct_command\<close>

text \<open>
  A value of the \<open>keys\<close> dictionary is a list (a nested parameter) or anything else
  that \<open>_escape_str\<close> accepts. The dictionary is given as the sequence of its items in
  the order \<open>for key in keys\<close> visits them; \<open>None\<close> is the default of both optional
  arguments, and \<open>if keys:\<close> is false for \<open>None\<close> and for an empty container.
\<close>

datatype keyval = Scalar pyval | Nested "pyval list"

definition add_key :: "string \<times> keyval \<Rightarrow> string list \<Rightarrow> string list" where
  "add_key item cstr =
     (case item of
        (key, Nested l) \<Rightarrow>
          (let ncstr = fold (\<lambda>nest ncstr. ncstr @ [key @ ''='' @ escape_str nest]) l []
           in cstr @ [join ''|'' ncstr])
      | (key, Scalar x) \<Rightarrow> cstr @ [key @ ''='' @ escape_str x])"

definition construct_command ::
  "string \<Rightarrow> (string \<times> keyval) list option \<Rightarrow> string list option \<Rightarrow> string" where
  "construct_command command keys opts =
     (let cstr = [] @ [command];
          cstr = (case keys of
                    None \<Rightarrow> cstr
                  | Some ks \<Rightarrow> if ks = [] then cstr else fold add_key ks cstr);
          cstr = (case opts of
                    None \<Rightarrow> cstr
                  | Some os \<Rightarrow>
                      if os = [] then cstr
                      else fold (\<lambda>opt cstr. cstr @ [''-'' @ opt]) os cstr)
      in join '' '' cstr)"

section \<open>The iteration order of a small dictionary\<close>

text \<open>
  \<open>for key in keys\<close> visits a dictionary in the order of its hash table. For CPython 2
  (64-bit, hash randomisation off, as by default) and a dictionary with string keys that
  has held at most five entries: the table has eight slots and is never resized; a key
  goes to the slot given by the low three bits of its hash, or, if another key is there,
  to the first free slot of the probe sequence of \<open>lookdict_string\<close>; the iteration runs
  through the slots in order. The hash of a string is \<open>string_hash\<close> of the
  interpreter, on machine integers of 64 bits; its low bits, which give the slot when no
  other key is there, are the same on a 32-bit build.
\<close>

definition string_hash :: "string \<Rightarrow> 64 word" where
  "string_hash s =
     (case s of
        [] \<Rightarrow> 0
      | c0 # _ \<Rightarrow>
          (let x = fold (\<lambda>c x. (1000003 * x) XOR of_char c) s (push_bit 7 (of_char c0));
               x = x XOR of_nat (length s)
           in if x = - 1 then - 2 else x))"

text \<open>
  The probe loop: \<open>i = (i << 2) + i + perturb + 1\<close>, the slot \<open>i & mask\<close> is looked
  at, and \<open>perturb\<close> is shifted right by five bits for the next round.
\<close>

partial_function (option) lookdict_probe ::
  "(string \<times> 'v) option list \<Rightarrow> string \<Rightarrow> 64 word \<Rightarrow> 64 word \<Rightarrow> nat option" where
  "lookdict_probe table key i perturb =
     (let i = push_bit 2 i + i + perturb + 1 in
      case table ! unat (i AND 7) of
        None \<Rightarrow> Some (unat (i AND 7))
      | Some (k, _) \<Rightarrow>
          if k = key then Some (unat (i AND 7))
          else lookdict_probe table key i (drop_bit 5 perturb))"

definition lookdict_string ::
  "(string \<times> 'v) option list \<Rightarrow> string \<Rightarrow> 64 word \<Rightarrow> nat option" where
  "lookdict_string table key hash =
     (let i = hash AND 7 in
      case table ! unat i of
        None \<Rightarrow> Some (unat i)
      | Some (k, _) \<Rightarrow>
          if k = key then Some (unat i) else lookdict_probe table key i hash)"

fun dict_setitems ::
  "(string \<times> 'v) list \<Rightarrow> (string \<times> 'v) option list \<Rightarrow> (string \<times> 'v) option list option" where
  "dict_setitems [] table = Some table"
| "dict_setitems ((key, v) # rest) table =
     (case lookdict_string table key (string_hash key) of
        None \<Rightarrow> None
      | Some slot \<Rightarrow> dict_setitems rest (table[slot := Some (key, v)]))"

text \<open>
  The items of the dictionary written as the literal \<open>{k1: v1, k2: v2, ...}\<close>, in
  iteration order. The result is \<open>None\<close> for more than five entries, which this model
  does not cover, and when a probe loop does not end.
\<close>

definition small_dict_items :: "(string \<times> 'v) list \<Rightarrow> (string \<times> 'v) list option" where
  "small_dict_items literal =
     (if length literal \<le> 5 then
        (case dict_setitems literal [None, None, None, None, None, None, None, None] of
           None \<Rightarrow> None
         | Some table \<Rightarrow> Some (concat (map (\<lambda>e. case e of None \<Rightarrow> [] | Some kv \<Rightarrow> [kv]) table)))
      else None)"

section \<open>parse_command\<close>

text \<open>
  A parsed value is a string, or the list of strings of a pipe-joined token. The result
  dictionary \<open>d\<close> always has \<open>'keys'\<close> and \<open>'opts'\<close>, and has \<open>'command'\<close> only when
  the command is not empty.
\<close>

datatype pvalue = Single string | Multi "string list"

record parsed =
  d_command :: "string option"
  d_keys :: "string \<rightharpoonup> pvalue"
  d_opts :: "string list"

text \<open>
  The inner loop over the pieces of a pipe-joined token: \<open>nvalue[1]\<close> raises
  \<open>IndexError\<close> when the piece has no \<open>=\<close>. \<open>okey\<close> is unbound before the first piece.
\<close>

fun nested_keys ::
  "string list \<Rightarrow> string option \<times> string list \<Rightarrow> error + (string option \<times> string list)" where
  "nested_keys [] (okey, output) = Inr (okey, output)"
| "nested_keys (nkey # nkeys) (okey, output) =
     (case split_chr CHR ''='' nkey of
        n0 # n1 # _ \<Rightarrow> nested_keys nkeys (Some n0, output @ [n1])
      | _ \<Rightarrow> Inl IndexError)"

text \<open>The body of the loop \<open>for key in cmdlist[start:]\<close>, on the pair \<open>(keys, opts)\<close>.\<close>

definition scan_token ::
  "string \<Rightarrow> (string \<rightharpoonup> pvalue) \<times> string list \<Rightarrow>
   error + ((string \<rightharpoonup> pvalue) \<times> string list)" where
  "scan_token key st =
     (case st of (keys, opts) \<Rightarrow>
        if length (split_chr CHR ''|'' key) > 1 then
          (case nested_keys (split_chr CHR ''|'' key) (None, []) of
             Inl e \<Rightarrow> Inl e
           | Inr (None, output) \<Rightarrow> Inl UnboundLocalError
           | Inr (Some okey, output) \<Rightarrow> Inr (keys(okey \<mapsto> Multi output), opts))
        else if length (split_chr CHR ''='' key) > 1 then
          (case split_chr CHR ''='' key of
             n0 # n1 # _ \<Rightarrow> Inr (keys(n0 \<mapsto> Single (unescape_str (PStr n1))), opts)
           | _ \<Rightarrow> Inl IndexError)
        else
          (case key of
             [] \<Rightarrow> Inl IndexError
           | k0 # krest \<Rightarrow>
               if k0 = CHR ''-'' then Inr (keys, opts @ [krest]) else Inr (keys, opts)))"

fun scan_tokens ::
  "string list \<Rightarrow> (string \<rightharpoonup> pvalue) \<times> string list \<Rightarrow>
   error + ((string \<rightharpoonup> pvalue) \<times> string list)" where
  "scan_tokens [] st = Inr st"
| "scan_tokens (key # rest) st =
     (case scan_token key st of
        Inl e \<Rightarrow> Inl e
      | Inr st' \<Rightarrow> scan_tokens rest st')"

definition parse_command :: "string \<Rightarrow> error + parsed" where
  "parse_command commandstr =
     (let cmdlist = split_chr CHR '' '' (strip commandstr) in
      case cmdlist of
        [] \<Rightarrow> Inl IndexError
      | command # _ \<Rightarrow>
          (let (start, command) =
                 (if length (split_chr CHR ''='' command) > 1 then (0, []) else (1, command))
           in case scan_tokens (drop start cmdlist) (Map.empty, []) of
                Inl e \<Rightarrow> Inl e
              | Inr (keys, opts) \<Rightarrow>
                  Inr \<lparr>d_command = (if command = [] then None else Some command),
                       d_keys = keys, d_opts = opts\<rparr>))"

section \<open>The session: connect, send, send_command\<close>

text \<open>
  The socket file has the bytes the server has sent and the client has not read yet,
  and the bytes the client has written. A session has the attributes of \<open>TS3Proto\<close>;
  \<open>_sock\<close> and \<open>_sockfile\<close> do not exist before \<open>connect\<close> assigns them. Logging is
  left out, and a write to an open socket file is taken to succeed.
\<close>

record sock_file =
  unread :: string
  written :: string

record session =
  connected :: bool
  sock :: "(string \<times> nat) option"
  sockfile :: "sock_file option"
  bytesin :: nat
  bytesout :: nat

text \<open>
  \<open>readline()\<close>: the bytes up to and including the next newline; what is left when the
  stream ends before a newline; the empty string at the end of the stream.
\<close>

definition readline :: "string \<Rightarrow> string \<times> string" where
  "readline buf =
     (case dropWhile (\<lambda>c. c \<noteq> CHR 0x0A) buf of
        [] \<Rightarrow> (buf, [])
      | nl # rest \<Rightarrow> (takeWhile (\<lambda>c. c \<noteq> CHR 0x0A) buf @ [nl], rest))"

text \<open>
  \<open>connect\<close>: \<open>tcp\<close> is what \<open>s.connect((ip, port))\<close> does, raising an exception
  of the socket library or opening the stream of the bytes the server sends. The handler
  is \<open>except: raise\<close>, which raises the caught exception again. The result is \<open>True\<close>
  or \<open>None\<close>.
\<close>

definition connect ::
  "session \<Rightarrow> string \<Rightarrow> nat \<Rightarrow> string + string \<Rightarrow> (error + bool option) \<times> session" where
  "connect self ip port tcp =
     (case tcp of
        Inl exc \<Rightarrow> (Inl (SocketError exc), self)
      | Inr incoming \<Rightarrow>
          (case readline incoming of (data, rest) \<Rightarrow>
             (let self = self\<lparr>sock := Some (ip, port),
                               sockfile := Some \<lparr>unread = rest, written = []\<rparr>\<rparr>
              in if strip data = ''TS3''
                 then (Inr (Some True), self\<lparr>connected := True\<rparr>)
                 else (Inr None, self))))"

definition send :: "session \<Rightarrow> string \<Rightarrow> (error + unit) \<times> session" where
  "send self payload =
     (if connected self then
        (case sockfile self of
           None \<Rightarrow> (Inl AttributeError, self)
         | Some f \<Rightarrow> (Inr (), self\<lparr>sockfile := Some (f\<lparr>written := written f @ payload\<rparr>)\<rparr>))
      else (Inr (), self))"

text \<open>
  The loop \<open>while True\<close> of \<open>send_command\<close>, on the unread bytes and \<open>ret\<close>. At the
  end of the stream every \<open>readline()\<close> is the empty string, which parses to a line
  with no command, so the loop never ends: the result is then \<open>None\<close>.
\<close>

partial_function (option) read_loop ::
  "string \<Rightarrow> (string \<rightharpoonup> pvalue) list \<Rightarrow>
   ((error + parsed \<times> (string \<rightharpoonup> pvalue) list) \<times> string) option" where
  "read_loop buf ret =
     (case readline buf of (resp, buf') \<Rightarrow>
        (case parse_command resp of
           Inl e \<Rightarrow> Some (Inl e, buf')
         | Inr resp \<Rightarrow>
             (case d_command resp of
                None \<Rightarrow> read_loop buf' (ret @ [d_keys resp])
              | Some _ \<Rightarrow> Some (Inr (resp, ret), buf'))))"

text \<open>What \<open>send_command\<close> returns: \<open>ret\<close>, the value of \<open>id\<close>, or \<open>None\<close>.\<close>

datatype retval = RList "(string \<rightharpoonup> pvalue) list" | RVal pvalue | RNone

definition resolve :: "parsed \<Rightarrow> (string \<rightharpoonup> pvalue) list \<Rightarrow> error + retval" where
  "resolve resp ret =
     (if d_command resp = Some ''error'' then
        (case d_keys resp ''id'' of
           None \<Rightarrow> Inl KeyError
         | Some i \<Rightarrow> if ret \<noteq> [] \<and> i = Single ''0'' then Inr (RList ret) else Inr (RVal i))
      else Inr RNone)"

definition send_command ::
  "session \<Rightarrow> string \<Rightarrow> (string \<times> keyval) list option \<Rightarrow> string list option \<Rightarrow>
   ((error + retval) \<times> session) option" where
  "send_command self command keys opts =
     (let cmd = construct_command command keys opts in
      case send self (cmd @ [CHR 0x0A]) of
        (Inl e, self) \<Rightarrow> Some (Inl e, self)
      | (Inr _, self) \<Rightarrow>
          (case sockfile self of
             None \<Rightarrow> Some (Inl AttributeError, self)
           | Some f \<Rightarrow>
               (case read_loop (unread f) [] of
                  None \<Rightarrow> None
                | Some (Inl e, rest) \<Rightarrow>
                    Some (Inl e, self\<lparr>sockfile := Some (f\<lparr>unread := rest\<rparr>)\<rparr>)
                | Some (Inr (resp, ret), rest) \<Rightarrow>
                    Some (resolve resp ret, self\<lparr>sockfile := Some (f\<lparr>unread := rest\<rparr>)\<rparr>))))"

section \<open>The wire line as the specification words it\<close>

text \<open>
  The specification's account of \<open>construct\<close>, to be compared with
  \<open>construct_command\<close>: one token per key, a sequence rendered as its elements
  \<open>key=escape(element)\<close> joined with a pipe, anything else as \<open>key=escape(value)\<close>.
  \<open>entries\<close> reads an optional argument as the sequence it holds.
\<close>

fun spec_key_token :: "string \<times> keyval \<Rightarrow> string" where
  "spec_key_token (key, Nested l) = join ''|'' (map (\<lambda>e. key @ ''='' @ escape_str e) l)"
| "spec_key_token (key, Scalar x) = key @ ''='' @ escape_str x"

fun entries :: "'a list option \<Rightarrow> 'a list" where
  "entries None = []"
| "entries (Some xs) = xs"

section \<open>Notions used in the proofs about escaping\<close>

text \<open>
  The table as pairs of characters, the literal and the letter of its token, and the two
  ways between such a pair and an item of \<open>ts3_escape\<close>.
\<close>

definition wire_table :: "(char \<times> char) list" where
  "wire_table =
     [(CHR ''/'', CHR ''/''), (CHR '' '', CHR ''s''), (CHR ''|'', CHR ''p''),
      (CHR 0x07, CHR ''a''), (CHR 0x08, CHR ''b''), (CHR 0x0C, CHR ''f''),
      (CHR 0x0A, CHR ''n''), (CHR 0x0D, CHR ''r''), (CHR 0x09, CHR ''t''),
      (CHR 0x0B, CHR ''v'')]"

definition wire_item :: "char \<times> char \<Rightarrow> string \<times> string" where
  "wire_item p = ([fst p], [bslash, snd p])"

definition item_chars :: "string \<times> string \<Rightarrow> char \<times> char" where
  "item_chars p = (hd (fst p), last (snd p))"

definition token_of :: "char \<times> char \<Rightarrow> char \<times> string" where
  "token_of p = (fst p, [bslash, snd p])"

definition letter_of :: "char \<times> char \<Rightarrow> char \<times> char" where
  "letter_of p = (snd p, fst p)"

text \<open>
  What the loop of \<open>_escape_str\<close> amounts to on one character, and what the loop of
  \<open>_unescape_str\<close> amounts to on a string: one scan that turns a backslash and a token
  letter into the literal. Both are shown below to agree with the loops, for every order
  of the items.
\<close>

definition encode_char :: "(char \<rightharpoonup> string) \<Rightarrow> char \<Rightarrow> string" where
  "encode_char m a = (case m a of None \<Rightarrow> [a] | Some t \<Rightarrow> t)"

fun decode :: "(char \<rightharpoonup> char) \<Rightarrow> string \<Rightarrow> string" where
  "decode m [] = []"
| "decode m [a] = [a]"
| "decode m (a # b # r) =
     (if a = bslash then
        (case m b of
           Some c \<Rightarrow> c # decode m r
         | None \<Rightarrow> a # decode m (b # r))
      else a # decode m (b # r))"

section \<open>Properties of the escaping functions\<close>

lemma set_scan_replace: "set (scan_replace old new s) \<subseteq> set s \<union> set new"
proof (induction old new s rule: scan_replace.induct)
  case (1 old new)
  then show ?case by simp
next
  case (2 old new c cs)
  have d: "set (drop (length old - 1) cs) \<subseteq> set cs" by (rule set_drop_subset)
  show ?case
  proof (cases "take (length old) (c # cs) = old")
    case True
    with 2(1) d show ?thesis by (simp del: take_Suc_Cons) blast
  next
    case False
    with 2(2) show ?thesis by (simp del: take_Suc_Cons) blast
  qed
qed

lemma set_str_replace: "set (str_replace old new s) \<subseteq> set s \<union> set new"
  using set_scan_replace [of old new s] by (auto simp: str_replace_def)

lemma scan_replace_single:
  "scan_replace [c] t s = concat (map (\<lambda>x. if x = c then t else [x]) s)"
  by (induction s) simp_all

lemma str_replace_single:
  "str_replace [c] t s = concat (map (\<lambda>x. if x = c then t else [x]) s)"
  by (simp add: str_replace_def scan_replace_single)

text \<open>A character that no token holds and the string does not hold stays out.\<close>

lemma fold_replace_keeps_out:
  "c \<notin> set s \<Longrightarrow> (\<And>i j. (i, j) \<in> set items \<Longrightarrow> c \<notin> set j) \<Longrightarrow>
   c \<notin> set (fold (\<lambda>(i, j) acc. str_replace i j acc) items s)"
proof (induction items arbitrary: s)
  case Nil
  then show ?case by simp
next
  case (Cons p items)
  obtain i j where p: "p = (i, j)" by (cases p)
  have "c \<notin> set j" using Cons.prems(2) [of i j] p by simp
  with Cons.prems(1) have "c \<notin> set (str_replace i j s)"
    using set_str_replace [of i j s] by auto
  then have "c \<notin> set (fold (\<lambda>(i, j) acc. str_replace i j acc) items (str_replace i j s))"
    using Cons.prems(2) by (intro Cons.IH) auto
  then show ?case by (simp add: p)
qed

text \<open>
  A literal of the table that no token holds is gone after the loop, wherever its entry
  stands in the enumeration.
\<close>

lemma fold_replace_removes:
  assumes "([c], t) \<in> set items" and "\<And>i j. (i, j) \<in> set items \<Longrightarrow> c \<notin> set j"
  shows "c \<notin> set (fold (\<lambda>(i, j) acc. str_replace i j acc) items s)"
proof -
  from assms(1) obtain pre post where items: "items = pre @ ([c], t) # post"
    by (auto simp: in_set_conv_decomp)
  define s1 where "s1 = fold (\<lambda>(i, j) acc. str_replace i j acc) pre s"
  have "c \<notin> set t" using assms by blast
  then have "c \<notin> set (str_replace [c] t s1)"
    by (auto simp: str_replace_single)
  then have "c \<notin> set (fold (\<lambda>(i, j) acc. str_replace i j acc) post (str_replace [c] t s1))"
    using assms(2) by (intro fold_replace_keeps_out) (auto simp: items)
  then show ?thesis by (simp add: items s1_def)
qed

lemma digit_mem: "k < 10 \<Longrightarrow> digit_chars ! k \<in> set digit_chars"
  by (rule nth_mem) (simp add: digit_chars_def)

lemma set_show_nat: "set (show_nat n) \<subseteq> set digit_chars"
proof (induction n rule: show_nat.induct)
  case (1 n)
  show ?case
  proof (cases "n < 10")
    case True
    have "show_nat n = [digit_chars ! n]" using True by (subst show_nat.simps) simp
    then show ?thesis using digit_mem [OF True] by simp
  next
    case False
    have m: "n mod 10 < 10" by simp
    have "show_nat n = show_nat (n div 10) @ [digit_chars ! (n mod 10)]"
      using False by (subst show_nat.simps) simp
    then show ?thesis using 1 [OF False] digit_mem [OF m] by simp
  qed
qed

lemma set_show_int: "set (show_int i) \<subseteq> insert CHR ''-'' (set digit_chars)"
  using set_show_nat [of "nat i"] set_show_nat [of "nat (- i)"]
  by (auto simp: show_int_def)

lemma escape_items_removes:
  assumes "([c], t) \<in> set items" and "\<And>i j. (i, j) \<in> set items \<Longrightarrow> c \<notin> set j"
    and "c \<notin> insert CHR ''-'' (set digit_chars)"
  shows "c \<notin> set (escape_items items v)"
proof (cases v)
  case (PStr s)
  then show ?thesis using fold_replace_removes [OF assms(1,2)] by (simp add: escape_items_def)
next
  case (PInt n)
  then show ?thesis using set_show_int [of n] assms(3) by (auto simp: escape_items_def)
qed

lemma ts3_tokens:
  "(i, j) \<in> set ts3_escape \<Longrightarrow>
   set j \<subseteq> {bslash, CHR ''/'', CHR ''s'', CHR ''p'', CHR ''a'', CHR ''b'', CHR ''f'',
            CHR ''n'', CHR ''r'', CHR ''t'', CHR ''v''}"
  unfolding ts3_escape_def by (elim set_ConsD [elim_format]) auto

lemma escape_str_removes:
  assumes "([c], t) \<in> set ts3_escape"
    and "c \<notin> {bslash, CHR ''/'', CHR ''s'', CHR ''p'', CHR ''a'', CHR ''b'', CHR ''f'',
            CHR ''n'', CHR ''r'', CHR ''t'', CHR ''v''}"
    and "c \<notin> insert CHR ''-'' (set digit_chars)"
  shows "c \<notin> set (escape_str v)"
  unfolding escape_str_def
proof (rule escape_items_removes [OF assms(1) _ assms(3)])
  fix i j
  assume "(i, j) \<in> set ts3_escape"
  from ts3_tokens [OF this] assms(2) show "c \<notin> set j" by (rule contra_subsetD)
qed

text \<open>
  C10, as the code has it. The escaped form of a string or an integer holds no space, no
  pipe, and none of bell, backspace, form feed, newline, carriage return, horizontal tab
  and vertical tab: an escaped value brings no token separator, no record separator and
  no line terminator into a wire line. The forward slash is not in this list: its token
  is a backslash followed by the slash itself.
\<close>

theorem escape_str_no_separators:
  "CHR '' '' \<notin> set (escape_str v) \<and> CHR ''|'' \<notin> set (escape_str v) \<and>
   CHR 0x07 \<notin> set (escape_str v) \<and> CHR 0x08 \<notin> set (escape_str v) \<and>
   CHR 0x0C \<notin> set (escape_str v) \<and> CHR 0x0A \<notin> set (escape_str v) \<and>
   CHR 0x0D \<notin> set (escape_str v) \<and> CHR 0x09 \<notin> set (escape_str v) \<and>
   CHR 0x0B \<notin> set (escape_str v)"
proof (intro conjI)
  show "CHR '' '' \<notin> set (escape_str v)"
    by (rule escape_str_removes [where t = "[bslash, CHR ''s'']"])
       (simp_all add: ts3_escape_def digit_chars_def)
  show "CHR ''|'' \<notin> set (escape_str v)"
    by (rule escape_str_removes [where t = "[bslash, CHR ''p'']"])
       (simp_all add: ts3_escape_def digit_chars_def)
  show "CHR 0x07 \<notin> set (escape_str v)"
    by (rule escape_str_removes [where t = "[bslash, CHR ''a'']"])
       (simp_all add: ts3_escape_def digit_chars_def)
  show "CHR 0x08 \<notin> set (escape_str v)"
    by (rule escape_str_removes [where t = "[bslash, CHR ''b'']"])
       (simp_all add: ts3_escape_def digit_chars_def)
  show "CHR 0x0C \<notin> set (escape_str v)"
    by (rule escape_str_removes [where t = "[bslash, CHR ''f'']"])
       (simp_all add: ts3_escape_def digit_chars_def)
  show "CHR 0x0A \<notin> set (escape_str v)"
    by (rule escape_str_removes [where t = "[bslash, CHR ''n'']"])
       (simp_all add: ts3_escape_def digit_chars_def)
  show "CHR 0x0D \<notin> set (escape_str v)"
    by (rule escape_str_removes [where t = "[bslash, CHR ''r'']"])
       (simp_all add: ts3_escape_def digit_chars_def)
  show "CHR 0x09 \<notin> set (escape_str v)"
    by (rule escape_str_removes [where t = "[bslash, CHR ''t'']"])
       (simp_all add: ts3_escape_def digit_chars_def)
  show "CHR 0x0B \<notin> set (escape_str v)"
    by (rule escape_str_removes [where t = "[bslash, CHR ''v'']"])
       (simp_all add: ts3_escape_def digit_chars_def)
qed

text \<open>
  C10 as stated fails at the forward slash: the escaped form of the one-character
  string \<open>/\<close> is a backslash and a slash, so the output holds a forward slash.
\<close>

theorem escape_str_slash_counterexample:
  "CHR ''/'' \<in> set (escape_str (PStr ''/''))"
  by (simp add: escape_str_def escape_items_def ts3_escape_def str_replace_def)

text \<open>
  C1 at the two-character string backslash, \<open>s\<close>. Escaping doubles the backslash;
  \<open>_unescape_str\<close> collapses the doubled backslash first and only then replaces the
  tokens, so the collapsed backslash and the \<open>s\<close> are read as the token of the space:
  the round trip returns a single space, not the original string.
\<close>

theorem unescape_escape_backslash_s:
  "escape_str (PStr [bslash, CHR ''s'']) = [bslash, bslash, CHR ''s''] \<and>
   unescape_str (PStr (escape_str (PStr [bslash, CHR ''s'']))) = '' ''"
  by (simp add: unescape_str_def escape_str_def escape_items_def unescape_items_def
      ts3_escape_def str_replace_def)

subsection \<open>The order of the items does not matter\<close>

text \<open>
  The loop of \<open>_escape_str\<close> over single-character keys is a map over the characters,
  when no token holds the key of another entry.
\<close>

lemma concat_map_singletons: "concat (map (\<lambda>a. [a]) t) = t"
  by (induction t) simp_all

lemma encode_untouched:
  assumes "\<And>a. a \<in> set t \<Longrightarrow> m a = None"
  shows "concat (map (encode_char m) t) = t"
  using assms by (induction t) (simp_all add: encode_char_def)

lemma fold_replace_chars:
  assumes "distinct (map fst tbl)"
    and "\<And>c t c' t'. (c, t) \<in> set tbl \<Longrightarrow> (c', t') \<in> set tbl \<Longrightarrow> c' \<noteq> c \<Longrightarrow> c' \<notin> set t"
  shows "fold (\<lambda>(i, j) acc. str_replace i j acc) (map (\<lambda>(c, t). ([c], t)) tbl) s =
         concat (map (encode_char (map_of tbl)) s)"
  using assms
proof (induction tbl arbitrary: s)
  case Nil
  then show ?case by (simp add: encode_char_def concat_map_singletons)
next
  case (Cons p tbl)
  obtain c t where p: "p = (c, t)" by (cases p)
  have nc: "map_of tbl c = None"
    using Cons.prems(1) by (simp add: p map_of_eq_None_iff)
  have t: "concat (map (encode_char (map_of tbl)) t) = t"
  proof (rule encode_untouched)
    fix a assume a: "a \<in> set t"
    show "map_of tbl a = None"
    proof (rule ccontr)
      assume "map_of tbl a \<noteq> None"
      then obtain t' where "(a, t') \<in> set tbl" by (auto dest: map_of_SomeD)
      moreover from this have "a \<noteq> c" using Cons.prems(1) by (force simp: p)
      ultimately have "a \<notin> set t" using Cons.prems(2) [of c t a t'] by (simp add: p)
      with a show False by simp
    qed
  qed
  have step: "concat (map (encode_char (map_of tbl)) (if a = c then t else [a])) =
              encode_char (map_of (p # tbl)) a" for a
    using t by (simp add: p encode_char_def)
  have "fold (\<lambda>(i, j) acc. str_replace i j acc) (map (\<lambda>(c, t). ([c], t)) (p # tbl)) s =
        fold (\<lambda>(i, j) acc. str_replace i j acc) (map (\<lambda>(c, t). ([c], t)) tbl)
          (str_replace [c] t s)"
    by (simp add: p)
  also have "\<dots> = concat (map (encode_char (map_of tbl)) (str_replace [c] t s))"
    using Cons.prems by (intro Cons.IH) auto
  also have "\<dots> = concat (map (\<lambda>a. concat (map (encode_char (map_of tbl))
                                   (if a = c then t else [a]))) s)"
    unfolding str_replace_single by (induction s) simp_all
  also have "\<dots> = concat (map (encode_char (map_of (p # tbl))) s)"
    by (simp only: step)
  finally show ?case .
qed

text \<open>
  One pass of \<open>_unescape_str\<close>, replacing one token by its literal, followed by the
  decoding scan for the other tokens, is the decoding scan with that token added.
\<close>

lemma decode_other: "a \<noteq> bslash \<Longrightarrow> decode m (a # t) = a # decode m t"
  by (cases t) simp_all

lemma decode_bslash_untouched:
  "t = [] \<or> m (hd t) = None \<Longrightarrow> decode m (bslash # t) = bslash # decode m t"
  by (cases t) auto

lemma pass_other:
  "a \<noteq> bslash \<Longrightarrow> scan_replace [bslash, x] [c] (a # t) = a # scan_replace [bslash, x] [c] t"
  by simp

lemma pass_token:
  "scan_replace [bslash, x] [c] (bslash # x # r) = c # scan_replace [bslash, x] [c] r"
  by simp

lemma pass_bslash_other:
  "b \<noteq> x \<Longrightarrow>
   scan_replace [bslash, x] [c] (bslash # b # r) = bslash # scan_replace [bslash, x] [c] (b # r)"
  by simp

lemma pass_hd:
  "scan_replace [bslash, x] [c] (b # r) = [] \<or>
   hd (scan_replace [bslash, x] [c] (b # r)) = b \<or>
   hd (scan_replace [bslash, x] [c] (b # r)) = c"
  by (cases r) auto

lemma decode_pass:
  assumes "m x = None" and "m c = None" and "m bslash = None" and "c \<noteq> bslash"
  shows "decode m (scan_replace [bslash, x] [c] s) = decode (m(x \<mapsto> c)) s"
proof (induction "m(x \<mapsto> c)" s rule: decode.induct)
  case 1
  then show ?case by simp
next
  case (2 a)
  then show ?case by simp
next
  case (3 a b r)
  let ?pass = "scan_replace [bslash, x] [c]"
  show ?case
  proof (cases "a = bslash")
    case False
    have "decode m (?pass (a # b # r)) = a # decode m (?pass (b # r))"
      using False by (simp add: pass_other decode_other del: scan_replace.simps decode.simps)
    also have "\<dots> = a # decode (m(x \<mapsto> c)) (b # r)"
      using 3(3) [OF False] by simp
    finally show ?thesis using False by simp
  next
    case True
    show ?thesis
    proof (cases "b = x")
      case bx: True
      have "decode m (?pass (a # b # r)) = c # decode m (?pass r)"
        using True bx assms(4) by (simp add: pass_token decode_other del: scan_replace.simps decode.simps)
      also have "\<dots> = c # decode (m(x \<mapsto> c)) r"
      proof -
        have "(m(x \<mapsto> c)) b = Some c" using bx by simp
        from 3(2) [OF True this] show ?thesis by simp
      qed
      finally show ?thesis using True bx by simp
    next
      case nbx: False
      show ?thesis
      proof (cases "m b")
        case None
        have upd: "(m(x \<mapsto> c)) b = None" using None nbx by simp
        have hd: "?pass (b # r) = [] \<or> m (hd (?pass (b # r))) = None"
          using pass_hd [of x c b r] None assms(2) by auto
        have "decode m (?pass (a # b # r)) = decode m (bslash # ?pass (b # r))"
          using True nbx by (simp add: pass_bslash_other del: scan_replace.simps decode.simps)
        also have "\<dots> = bslash # decode m (?pass (b # r))"
          using hd by (rule decode_bslash_untouched)
        also have "\<dots> = bslash # decode (m(x \<mapsto> c)) (b # r)"
          using 3(1) [OF True upd] by simp
        finally show ?thesis using True upd by simp
      next
        case (Some c')
        have upd: "(m(x \<mapsto> c)) b = Some c'" using Some nbx by simp
        have nb: "b \<noteq> bslash" using Some assms(3) by auto
        have "decode m (?pass (a # b # r)) = decode m (bslash # b # ?pass r)"
          using True nbx nb by (simp add: pass_bslash_other pass_other del: scan_replace.simps decode.simps)
        also have "\<dots> = c' # decode m (?pass r)"
          using Some by simp
        also have "\<dots> = c' # decode (m(x \<mapsto> c)) r"
          using 3(2) [OF True upd] by simp
        finally show ?thesis using True upd by simp
      qed
    qed
  qed
qed

lemma ts3_escape_wire: "ts3_escape = map wire_item wire_table"
  by (simp add: ts3_escape_def wire_table_def wire_item_def)

lemma item_chars_wire_item: "item_chars (wire_item p) = p"
  by (simp add: item_chars_def wire_item_def)

lemma decode_empty: "decode Map.empty s = s"
  by (induction "Map.empty :: char \<rightharpoonup> char" s rule: decode.induct) simp_all

lemma fold_unescape_decode:
  assumes "distinct (map snd tbl)"
    and "\<And>c x. (c, x) \<in> set tbl \<Longrightarrow> c \<noteq> bslash \<and> x \<noteq> bslash"
    and "\<And>c x c' x'. (c, x) \<in> set tbl \<Longrightarrow> (c', x') \<in> set tbl \<Longrightarrow> c = x' \<Longrightarrow> x = x'"
  shows "fold (\<lambda>(i, j) acc. str_replace j i acc) (map wire_item tbl) s =
         decode (map_of (map (\<lambda>(c, x). (x, c)) tbl)) s"
  using assms
proof (induction tbl arbitrary: s)
  case Nil
  then show ?case by (simp add: decode_empty)
next
  case (Cons p tbl)
  obtain c x where p: "p = (c, x)" by (cases p)
  let ?m = "map_of (map (\<lambda>(c, x). (x, c)) tbl)"
  have dom: "?m y = None \<longleftrightarrow> y \<notin> snd ` set tbl" for y
    by (force simp: map_of_eq_None_iff)
  have x: "x \<notin> snd ` set tbl" using Cons.prems(1) by (simp add: p)
  have mx: "?m x = None" using x by (simp add: dom del: map_of_eq_None_iff)
  have mc: "?m c = None"
  proof -
    have "c \<notin> snd ` set tbl"
    proof
      assume "c \<in> snd ` set tbl"
      then obtain c' where in_tbl: "(c', c) \<in> set tbl" by force
      then have "x = c" using Cons.prems(3) [of c x c' c] by (simp add: p)
      with in_tbl x show False by force
    qed
    then show ?thesis by (simp add: dom del: map_of_eq_None_iff)
  qed
  have mb: "?m bslash = None"
  proof -
    have "bslash \<notin> snd ` set tbl" using Cons.prems(2) by (force simp: p)
    then show ?thesis by (simp add: dom del: map_of_eq_None_iff)
  qed
  have cb: "c \<noteq> bslash" using Cons.prems(2) [of c x] by (simp add: p)
  have "fold (\<lambda>(i, j) acc. str_replace j i acc) (map wire_item (p # tbl)) s =
        fold (\<lambda>(i, j) acc. str_replace j i acc) (map wire_item tbl)
          (scan_replace [bslash, x] [c] s)"
    by (simp add: p wire_item_def str_replace_def)
  also have "\<dots> = decode ?m (scan_replace [bslash, x] [c] s)"
  proof (rule Cons.IH)
    show "distinct (map snd tbl)" using Cons.prems(1) by simp
  next
    fix c x assume "(c, x) \<in> set tbl"
    then show "c \<noteq> bslash \<and> x \<noteq> bslash" using Cons.prems(2) [of c x] by simp
  next
    fix c x c' x' assume "(c, x) \<in> set tbl" "(c', x') \<in> set tbl" "c = x'"
    then show "x = x'" using Cons.prems(3) [of c x c' x'] by simp
  qed
  also have "\<dots> = decode (?m(x \<mapsto> c)) s"
    by (rule decode_pass [OF mx mc mb cb])
  finally have "fold (\<lambda>(i, j) acc. str_replace j i acc) (map wire_item (p # tbl)) s =
      decode (?m(x \<mapsto> c)) s" .
  moreover have "map_of (map (\<lambda>(c, x). (x, c)) (p # tbl)) = ?m(x \<mapsto> c)"
    by (simp add: p)
  ultimately show ?case by (simp only:)
qed

lemma wire_table_letters:
  "(c, x) \<in> set wire_table \<Longrightarrow>
   c \<in> {CHR ''/'', CHR '' '', CHR ''|'', CHR 0x07, CHR 0x08, CHR 0x0C, CHR 0x0A, CHR 0x0D,
        CHR 0x09, CHR 0x0B} \<and>
   x \<in> {CHR ''/'', CHR ''s'', CHR ''p'', CHR ''a'', CHR ''b'', CHR ''f'', CHR ''n'', CHR ''r'',
        CHR ''t'', CHR ''v''}"
  unfolding wire_table_def by (elim set_ConsD [elim_format]) auto

lemma wire_table_no_bslash:
  "(c, x) \<in> set wire_table \<Longrightarrow> c \<noteq> bslash \<and> x \<noteq> bslash"
  by (drule wire_table_letters) auto

lemma wire_table_own_letter:
  assumes "(c, x) \<in> set wire_table" and "(c', x') \<in> set wire_table" and "c = x'"
  shows "x = x'"
proof -
  have "c = CHR ''/''" using wire_table_letters [OF assms(1)] wire_table_letters [OF assms(2)] assms(3)
    by auto
  then have "x = CHR ''/''" using assms(1) by (auto simp: wire_table_def)
  moreover have "x' = CHR ''/''" using \<open>c = CHR ''/''\<close> assms(3) by simp
  ultimately show ?thesis by simp
qed

lemma wire_table_distinct: "distinct (map fst wire_table) \<and> distinct (map snd wire_table)"
  by (simp add: wire_table_def)

text \<open>An enumeration of the dictionary lists every item of the table once.\<close>

lemma enumeration_table:
  assumes "distinct items" and "set items = set ts3_escape"
  obtains tbl where "items = map wire_item tbl" and "distinct tbl"
    and "set tbl = set wire_table"
proof
  let ?tbl = "map item_chars items"
  have restore: "wire_item (item_chars p) = p" if "p \<in> set items" for p
  proof -
    from that assms(2) obtain q where "p = wire_item q"
      by (auto simp: ts3_escape_wire)
    then show ?thesis by (simp add: item_chars_wire_item)
  qed
  show "items = map wire_item ?tbl"
    using restore by (simp add: map_idI)
  have "inj_on item_chars (set items)"
    by (rule inj_on_inverseI [where g = wire_item]) (rule restore)
  with assms(1) show "distinct ?tbl" by (simp add: distinct_map)
  have "set ?tbl = item_chars ` set (map wire_item wire_table)"
    using assms(2) by (simp add: ts3_escape_wire)
  also have "\<dots> = set wire_table"
    by (simp add: image_image item_chars_wire_item del: set_map)
       (simp add: image_image item_chars_wire_item)
  finally show "set ?tbl = set wire_table" .
qed

lemma table_distinct:
  assumes "distinct tbl" and "set tbl = set wire_table"
  shows "distinct (map fst tbl)" and "distinct (map snd tbl)"
proof -
  have "inj_on fst (set wire_table)" and "inj_on snd (set wire_table)"
    using wire_table_distinct by (simp_all add: distinct_map)
  then show "distinct (map fst tbl)" and "distinct (map snd tbl)"
    using assms by (simp_all add: distinct_map)
qed

lemma escape_loop_chars:
  assumes "distinct tbl" and "set tbl = set wire_table"
  shows "fold (\<lambda>(i, j) acc. str_replace i j acc) (map wire_item tbl) s =
         concat (map (encode_char (map_of (map token_of wire_table))) s)"
proof -
  have items: "map wire_item tbl = map (\<lambda>(c, t). ([c], t)) (map token_of tbl)"
    by (simp add: wire_item_def token_of_def)
  have d: "distinct (map fst (map token_of tbl))"
    using table_distinct(1) [OF assms] by (simp add: token_of_def comp_def)
  have "fold (\<lambda>(i, j) acc. str_replace i j acc) (map wire_item tbl) s =
        concat (map (encode_char (map_of (map token_of tbl))) s)"
    unfolding items
  proof (rule fold_replace_chars [OF d])
    fix c t c' t'
    assume "(c, t) \<in> set (map token_of tbl)" and "(c', t') \<in> set (map token_of tbl)"
      and ne: "c' \<noteq> c"
    then obtain x x' where cx: "(c, x) \<in> set wire_table" and t: "t = [bslash, x]"
      and cx': "(c', x') \<in> set wire_table"
      using assms(2) by (auto simp: token_of_def)
    have "c' \<noteq> bslash" using wire_table_no_bslash [OF cx'] by simp
    moreover have "c' \<noteq> x"
    proof
      assume e: "c' = x"
      then have "x' = x" using wire_table_own_letter [OF cx' cx] by simp
      moreover have "inj_on snd (set wire_table)"
        using wire_table_distinct by (simp add: distinct_map)
      ultimately have "(c', x') = (c, x)"
        using cx cx' inj_onD [of snd "set wire_table" "(c', x')" "(c, x)"] by simp
      with ne show False by simp
    qed
    ultimately show "c' \<notin> set t" by (simp add: t)
  qed
  moreover have "map_of (map token_of tbl) = map_of (map token_of wire_table)"
  proof -
    have "distinct (map fst (map token_of wire_table))"
      using wire_table_distinct by (simp add: token_of_def comp_def)
    moreover have "set (map token_of tbl) = set (map token_of wire_table)"
      using assms(2) by simp
    ultimately show ?thesis using d by (simp only: map_of_inject_set)
  qed
  ultimately show ?thesis by simp
qed

lemma unescape_loop_decode:
  assumes "distinct tbl" and "set tbl = set wire_table"
  shows "fold (\<lambda>(i, j) acc. str_replace j i acc) (map wire_item tbl) s =
         decode (map_of (map letter_of wire_table)) s"
proof -
  have l: "(\<lambda>(c, x). (x, c)) = letter_of" by (auto simp: letter_of_def)
  have d: "distinct (map fst (map letter_of tbl))"
    using table_distinct(2) [OF assms] by (simp add: letter_of_def comp_def)
  have "fold (\<lambda>(i, j) acc. str_replace j i acc) (map wire_item tbl) s =
        decode (map_of (map (\<lambda>(c, x). (x, c)) tbl)) s"
  proof (rule fold_unescape_decode)
    show "distinct (map snd tbl)" by (rule table_distinct(2) [OF assms])
  next
    fix c x assume "(c, x) \<in> set tbl"
    then show "c \<noteq> bslash \<and> x \<noteq> bslash" using assms(2) wire_table_no_bslash by simp
  next
    fix c x c' x' assume "(c, x) \<in> set tbl" "(c', x') \<in> set tbl" "c = x'"
    then show "x = x'" using assms(2) wire_table_own_letter [of c x c' x'] by simp
  qed
  moreover have "map_of (map letter_of tbl) = map_of (map letter_of wire_table)"
  proof -
    have "distinct (map fst (map letter_of wire_table))"
      using wire_table_distinct by (simp add: letter_of_def comp_def)
    moreover have "set (map letter_of tbl) = set (map letter_of wire_table)"
      using assms(2) by simp
    ultimately show ?thesis using d by (simp only: map_of_inject_set)
  qed
  ultimately show ?thesis by (simp add: l)
qed

lemma escape_items_any_order:
  assumes "distinct items" and "set items = set ts3_escape"
  shows "escape_items items v = escape_str v"
proof -
  obtain tbl where tbl: "items = map wire_item tbl" "distinct tbl" "set tbl = set wire_table"
    using enumeration_table [OF assms] by blast
  have "fold (\<lambda>(i, j) acc. str_replace i j acc) items s =
        fold (\<lambda>(i, j) acc. str_replace i j acc) ts3_escape s" for s
    unfolding tbl(1) ts3_escape_wire
    using escape_loop_chars [OF tbl(2,3)] escape_loop_chars [of wire_table] wire_table_distinct
    by (simp add: distinct_map)
  then show ?thesis by (cases v) (simp_all add: escape_str_def escape_items_def)
qed

lemma unescape_items_any_order:
  assumes "distinct items" and "set items = set ts3_escape"
  shows "unescape_items items v = unescape_str v"
proof -
  obtain tbl where tbl: "items = map wire_item tbl" "distinct tbl" "set tbl = set wire_table"
    using enumeration_table [OF assms] by blast
  have "fold (\<lambda>(i, j) acc. str_replace j i acc) items s =
        fold (\<lambda>(i, j) acc. str_replace j i acc) ts3_escape s" for s
    unfolding tbl(1) ts3_escape_wire
    using unescape_loop_decode [OF tbl(2,3)] unescape_loop_decode [of wire_table]
      wire_table_distinct
    by (simp add: distinct_map)
  then show ?thesis by (cases v) (simp_all add: unescape_str_def unescape_items_def)
qed

subsection \<open>The round trip without backslashes\<close>

text \<open>
  On a string that holds no backslash, \<open>_unescape_str\<close> does undo \<open>_escape_str\<close>; the
  round trip fails only where a backslash of the original string comes to stand before a
  token letter.
\<close>

lemma escape_str_chars:
  "escape_str (PStr s) =
     concat (map (encode_char (map_of (map token_of wire_table)))
       (str_replace [bslash] [bslash, bslash] s))"
  using escape_loop_chars [of wire_table] wire_table_distinct
  by (simp add: escape_str_def escape_items_def ts3_escape_wire distinct_map)

lemma unescape_str_decode:
  "unescape_str (PStr w) =
     decode (map_of (map letter_of wire_table)) (scan_replace [bslash, bslash] [bslash] w)"
proof -
  have "str_replace [bslash, bslash] [bslash] w = scan_replace [bslash, bslash] [bslash] w"
    by (simp add: str_replace_def)
  moreover have "distinct wire_table"
    using wire_table_distinct by (simp add: distinct_map)
  ultimately show ?thesis
    using unescape_loop_decode [of wire_table]
    by (simp add: unescape_str_def unescape_items_def ts3_escape_wire)
qed

lemma double_no_bslash: "bslash \<notin> set s \<Longrightarrow> str_replace [bslash] [bslash, bslash] s = s"
  by (induction s) (auto simp: str_replace_def)

lemma encode_char_cases:
  assumes "a \<noteq> bslash"
  shows "(\<exists>x. encode_char (map_of (map token_of wire_table)) a = [bslash, x] \<and> x \<noteq> bslash \<and>
              map_of (map letter_of wire_table) x = Some a) \<or>
         encode_char (map_of (map token_of wire_table)) a = [a]"
proof (cases "map_of (map token_of wire_table) a")
  case None
  then show ?thesis by (simp add: encode_char_def)
next
  case (Some t)
  then have "(a, t) \<in> set (map token_of wire_table)" by (rule map_of_SomeD)
  then obtain x where ax: "(a, x) \<in> set wire_table" and t: "t = [bslash, x]"
    by (auto simp: token_of_def)
  have "(x, a) \<in> set (map letter_of wire_table)" using ax by (force simp: letter_of_def)
  moreover have "distinct (map fst (map letter_of wire_table))"
    using wire_table_distinct by (simp add: letter_of_def comp_def)
  ultimately have "map_of (map letter_of wire_table) x = Some a" by (simp only: map_of_is_SomeI)
  moreover have "x \<noteq> bslash" using wire_table_no_bslash [OF ax] by simp
  ultimately show ?thesis using Some t by (auto simp: encode_char_def)
qed

lemma collapse_encoded:
  "bslash \<notin> set s \<Longrightarrow>
   scan_replace [bslash, bslash] [bslash]
     (concat (map (encode_char (map_of (map token_of wire_table))) s)) =
   concat (map (encode_char (map_of (map token_of wire_table))) s)"
proof (induction s)
  case Nil
  then show ?case by simp
next
  case (Cons a s)
  then have a: "a \<noteq> bslash" by auto
  from encode_char_cases [OF a] Cons show ?case
    using a by (auto simp del: scan_replace.simps simp add: pass_bslash_other pass_other)
qed

lemma decode_encoded:
  "bslash \<notin> set s \<Longrightarrow>
   decode (map_of (map letter_of wire_table))
     (concat (map (encode_char (map_of (map token_of wire_table))) s)) = s"
proof (induction s)
  case Nil
  then show ?case by simp
next
  case (Cons a s)
  then have a: "a \<noteq> bslash" by auto
  from encode_char_cases [OF a] Cons show ?case
    using a by (auto simp del: decode.simps simp add: decode_other) simp
qed

lemma unescape_escape_no_bslash:
  assumes "bslash \<notin> set s"
  shows "unescape_str (PStr (escape_str (PStr s))) = s"
  using assms
  by (simp add: escape_str_chars unescape_str_decode double_no_bslash collapse_encoded
      decode_encoded)

section \<open>Properties of parse_command\<close>

lemmas parse_eval =
  parse_command_def strip_def isspace_def scan_token_def unescape_str_def
  unescape_items_def ts3_escape_def str_replace_def

text \<open>
  C3 at two lines. A line with two spaces in a row has an empty token, and \<open>key[0]\<close>
  raises \<open>IndexError\<close> on it; a pipe-joined token with a piece that has no \<open>=\<close>
  raises \<open>IndexError\<close> at \<open>nvalue[1]\<close>. In both cases \<open>parse_command\<close> raises
  instead of skipping the token.
\<close>

theorem parse_command_raises:
  "parse_command ''error  id=0'' = Inl IndexError \<and>
   parse_command ''clid=1 client_away_message|clid=2'' = Inl IndexError"
  by (simp add: parse_eval)

text \<open>
  C4 at the line \<open>msg=a=b\<close>. The token is split at every \<open>=\<close> and the second field
  is stored: the value under \<open>msg\<close> is \<open>a\<close>, not \<open>a=b\<close>.
\<close>

theorem parse_command_second_equals:
  "parse_command ''msg=a=b'' =
     Inr \<lparr>d_command = None, d_keys = [''msg'' \<mapsto> Single ''a''], d_opts = []\<rparr>"
  by (simp add: parse_eval)

text \<open>
  C5 at a pipe-joined token whose first value holds the token of the space. The values
  are stored as they stand on the wire; \<open>_unescape_str\<close>, which the branch for a plain
  \<open>key=value\<close> token calls, would give \<open>a b\<close>.
\<close>

theorem parse_command_nested_raw:
  "parse_command (''k=a'' @ [bslash] @ ''sb|k=c'') =
     Inr \<lparr>d_command = None,
          d_keys = [''k'' \<mapsto> Multi [''a'' @ [bslash] @ ''sb'', ''c'']], d_opts = []\<rparr> \<and>
   unescape_str (PStr (''a'' @ [bslash] @ ''sb'')) = ''a b''"
  by (simp add: parse_eval)

text \<open>Facts about \<open>split\<close> and \<open>join\<close> on one separator character.\<close>

lemma split_chr_notin: "sep \<notin> set s \<Longrightarrow> split_chr sep s = [s]"
  by (induction s) auto

lemma split_chr_append:
  "sep \<notin> set a \<Longrightarrow> split_chr sep (a @ sep # b) = a # split_chr sep b"
  by (induction a) auto

lemma split_chr_hd:
  "\<exists>ws. split_chr sep s = takeWhile (\<lambda>c. c \<noteq> sep) s # ws"
  by (induction s) auto

lemma split_chr_join:
  "xs \<noteq> [] \<Longrightarrow> (\<And>x. x \<in> set xs \<Longrightarrow> sep \<notin> set x) \<Longrightarrow>
   split_chr sep (join [sep] xs) = xs"
proof (induction "[sep]" xs rule: join.induct)
  case 1
  then show ?case by simp
next
  case (2 x)
  then show ?case by (simp add: split_chr_notin)
next
  case (3 x y ys)
  have "split_chr sep (x @ sep # join [sep] (y # ys)) = x # split_chr sep (join [sep] (y # ys))"
    using 3(3) by (intro split_chr_append) simp
  moreover have "split_chr sep (join [sep] (y # ys)) = y # ys"
    using 3(3) by (intro 3(1)) simp_all
  ultimately show ?case by simp
qed

lemma nested_keys_pieces:
  assumes "\<And>k v. (k, v) \<in> set ps \<Longrightarrow> CHR ''='' \<notin> set k"
  shows "nested_keys (map (\<lambda>(k, v). k @ ''='' @ v) ps) (okey, outp) =
         Inr (if ps = [] then okey else Some (fst (last ps)),
              outp @ map (\<lambda>(k, v). takeWhile (\<lambda>c. c \<noteq> CHR ''='') v) ps)"
  using assms
proof (induction ps arbitrary: okey outp)
  case Nil
  then show ?case by simp
next
  case (Cons p ps)
  obtain k v where p: "p = (k, v)" by (cases p)
  have k: "CHR ''='' \<notin> set k" using Cons.prems [of k v] p by simp
  obtain ws where ws: "split_chr CHR ''='' v = takeWhile (\<lambda>c. c \<noteq> CHR ''='') v # ws"
    using split_chr_hd by blast
  have sp: "split_chr CHR ''='' (k @ ''='' @ v) = k # takeWhile (\<lambda>c. c \<noteq> CHR ''='') v # ws"
    using split_chr_append [OF k, of v] ws by simp
  have "nested_keys (map (\<lambda>(k, v). k @ ''='' @ v) (p # ps)) (okey, outp) =
        nested_keys (map (\<lambda>(k, v). k @ ''='' @ v) ps)
          (Some k, outp @ [takeWhile (\<lambda>c. c \<noteq> CHR ''='') v])"
    using sp by (simp add: p)
  also have "\<dots> = Inr (if ps = [] then Some k else Some (fst (last ps)),
              (outp @ [takeWhile (\<lambda>c. c \<noteq> CHR ''='') v]) @
              map (\<lambda>(k, v). takeWhile (\<lambda>c. c \<noteq> CHR ''='') v) ps)"
    using Cons.prems by (intro Cons.IH) auto
  finally show ?case by (simp add: p)
qed

text \<open>
  What the loop body stores for a pipe-joined token. Take a token made of two or more
  pieces \<open>key=value\<close> joined by pipes, where no key holds \<open>=\<close> or a pipe and no value
  holds a pipe; the key names may all differ. One entry is stored: its key is the key
  name of the last piece (the names of the earlier pieces are dropped), and its value is
  the sequence, in order, of the code's \<open>nvalue[1]\<close> of each piece: the text after the
  first \<open>=\<close> as it stands on the wire, cut before a further \<open>=\<close> if the value holds
  one. All other entries and the options are unchanged.
\<close>

lemma scan_token_nested_pieces:
  assumes "1 < length ps"
    and "\<forall>(k, v) \<in> set ps. CHR ''='' \<notin> set k \<and> CHR ''|'' \<notin> set k \<and> CHR ''|'' \<notin> set v"
  shows "scan_token (join ''|'' (map (\<lambda>(k, v). k @ ''='' @ v) ps)) (keys, opts) =
         Inr (keys(fst (last ps) \<mapsto>
                Multi (map (\<lambda>(k, v). takeWhile (\<lambda>c. c \<noteq> CHR ''='') v) ps)), opts)"
proof -
  let ?pieces = "map (\<lambda>(k, v). k @ ''='' @ v) ps"
  have ne: "ps \<noteq> []" using assms(1) by auto
  have "split_chr CHR ''|'' (join ''|'' ?pieces) = ?pieces"
  proof (rule split_chr_join)
    show "?pieces \<noteq> []" using ne by simp
    fix x assume "x \<in> set ?pieces"
    then obtain k v where "(k, v) \<in> set ps" "x = k @ ''='' @ v" by auto
    with assms(2) show "CHR ''|'' \<notin> set x" by auto
  qed
  moreover have "nested_keys ?pieces (None, []) =
      Inr (Some (fst (last ps)), map (\<lambda>(k, v). takeWhile (\<lambda>c. c \<noteq> CHR ''='') v) ps)"
    using nested_keys_pieces [of ps None "[]"] assms(2) ne by auto
  ultimately show ?thesis
    using assms(1) by (simp add: scan_token_def)
qed

text \<open>
  The lemma at the token \<open>a=1|b=2|c=3\<close>, and the whole of \<open>parse_command\<close> on the
  line that is this token: with values that hold no \<open>=\<close>, all of them are stored under
  the key name of the last piece.
\<close>

lemma scan_token_nested_pieces_example:
  "scan_token ''a=1|b=2|c=3'' (Map.empty, []) = Inr ([''c'' \<mapsto> Multi [''1'', ''2'', ''3'']], []) \<and>
   parse_command ''a=1|b=2|c=3'' =
     Inr \<lparr>d_command = None, d_keys = [''c'' \<mapsto> Multi [''1'', ''2'', ''3'']], d_opts = []\<rparr>"
  using scan_token_nested_pieces [of "[(''a'', ''1''), (''b'', ''2''), (''c'', ''3'')]" Map.empty "[]"]
  by (simp add: parse_command_def strip_def isspace_def)

text \<open>
  C9 at the line \<open>a=x=y|b=2\<close>, a token of two pieces with differing key names whose
  first value is \<open>x=y\<close>. The entry is stored under \<open>b\<close>, the key name of the last
  piece, as the claim says; but the sequence stored is \<open>x\<close>, \<open>2\<close> and not the pieces'
  values \<open>x=y\<close>, \<open>2\<close>: the piece is split at every \<open>=\<close> and only its second field
  is kept, the cut that C4 shows for a plain \<open>key=value\<close> token.
\<close>

theorem parse_command_nested_value_cut:
  "parse_command ''a=x=y|b=2'' =
     Inr \<lparr>d_command = None, d_keys = [''b'' \<mapsto> Multi [''x'', ''2'']], d_opts = []\<rparr>"
  by (simp add: parse_eval)

section \<open>Properties of construct_command\<close>

lemma fold_snoc_map: "fold (\<lambda>x acc. acc @ [g x]) xs acc = acc @ map g xs"
  by (induction xs arbitrary: acc) simp_all

lemma add_key_token: "add_key item cstr = cstr @ [spec_key_token item]"
proof (cases item)
  case (Pair key v)
  then show ?thesis
    by (cases v) (simp_all add: add_key_def fold_snoc_map)
qed

lemma fold_add_key: "fold add_key ks cstr = cstr @ map spec_key_token ks"
  by (induction ks arbitrary: cstr) (simp_all add: add_key_token)

lemma construct_command_closed:
  "construct_command command keys opts =
     join '' '' ([command] @ map spec_key_token (entries keys) @
                 map (\<lambda>opt. ''-'' @ opt) (entries opts))"
proof -
  have k: "(case keys of None \<Rightarrow> [command]
            | Some ks \<Rightarrow> if ks = [] then [command] else fold add_key ks [command]) =
           [command] @ map spec_key_token (entries keys)"
    by (cases keys) (simp_all add: fold_add_key)
  have o: "(case opts of None \<Rightarrow> cstr
            | Some os \<Rightarrow> if os = [] then cstr
                         else fold (\<lambda>opt cstr. cstr @ [''-'' @ opt]) os cstr) =
           cstr @ map (\<lambda>opt. ''-'' @ opt) (entries opts)" for cstr
    by (cases opts) (simp_all add: fold_snoc_map)
  show ?thesis
    unfolding construct_command_def Let_def by (simp only: k o append_Nil append_assoc)
qed

text \<open>
  C6, as the code has it. The line that \<open>construct_command\<close> builds is the command
  name, then one token per key in the order in which the loop visits the keys, then
  \<open>-opt\<close> for each option in order, joined by single spaces; the token of a key is as
  the specification words it (\<open>spec_key_token\<close>): the pieces \<open>key=escape(element)\<close>
  joined by pipes for a list, which is the empty token for an empty list, and
  \<open>key=escape(value)\<close> otherwise. When the loop visits \<open>client_login_name\<close> before
  \<open>client_login_password\<close>, the login example gives exactly the line of the
  specification.
\<close>

theorem construct_command_tokens:
  "construct_command command keys opts =
     join '' '' ([command] @ map spec_key_token (entries keys) @
                 map (\<lambda>opt. ''-'' @ opt) (entries opts)) \<and>
   spec_key_token (key, Nested []) = '''' \<and>
   construct_command ''login''
     (Some [(''client_login_name'', Scalar (PStr ''a'')),
            (''client_login_password'', Scalar (PStr ''b''))]) None =
     ''login client_login_name=a client_login_password=b''"
proof (intro conjI)
  show "construct_command command keys opts =
     join '' '' ([command] @ map spec_key_token (entries keys) @
                 map (\<lambda>opt. ''-'' @ opt) (entries opts))"
    by (rule construct_command_closed)
  show "spec_key_token (key, Nested []) = ''''" by simp
  show "construct_command ''login''
     (Some [(''client_login_name'', Scalar (PStr ''a'')),
            (''client_login_password'', Scalar (PStr ''b''))]) None =
     ''login client_login_name=a client_login_password=b''"
    by (simp add: construct_command_def add_key_def escape_str_def escape_items_def
        ts3_escape_def str_replace_def)
qed

text \<open>
  The model of the dictionary order on a known case: CPython 2 prints the literal
  \<open>{'a': 1, 'b': 2, 'c': 3}\<close> as \<open>{'a': 1, 'c': 3, 'b': 2}\<close>.
\<close>

lemma small_dict_items_abc:
  "small_dict_items [(''a'', 1::nat), (''b'', 2), (''c'', 3)] =
     Some [(''a'', 1), (''c'', 3), (''b'', 2)]"
  by (simp add: small_dict_items_def lookdict_string_def string_hash_def)

text \<open>
  C6 as stated fails at its example when the mapping is the Python 2 dictionary written
  in the claim. By their hashes \<open>client_login_password\<close> goes to slot 4 and
  \<open>client_login_name\<close> to slot 6 of the table, so the loop of \<open>construct_command\<close>
  visits the password first, and the line is not the one the claim gives.
\<close>

theorem construct_command_login_counterexample:
  "small_dict_items
     [(''client_login_name'', Scalar (PStr ''a'')),
      (''client_login_password'', Scalar (PStr ''b''))] =
     Some [(''client_login_password'', Scalar (PStr ''b'')),
           (''client_login_name'', Scalar (PStr ''a''))] \<and>
   construct_command ''login''
     (Some [(''client_login_password'', Scalar (PStr ''b'')),
            (''client_login_name'', Scalar (PStr ''a''))]) None =
     ''login client_login_password=b client_login_name=a'' \<and>
   ''login client_login_password=b client_login_name=a'' \<noteq>
     ''login client_login_name=a client_login_password=b''"
  by (simp add: small_dict_items_def lookdict_string_def string_hash_def
      construct_command_def add_key_def escape_str_def escape_items_def
      ts3_escape_def str_replace_def)

section \<open>Properties of the session\<close>

text \<open>
  C7. While \<open>connected\<close> is false, \<open>send\<close> returns without raising and the session is
  unchanged: nothing is written, and the flag, the socket and the counters are as
  before. While \<open>connected\<close> is true, on the session's socket file, the payload is
  appended to the written bytes and nothing else changes.
\<close>

theorem send_guarded:
  "(\<not> connected self \<longrightarrow> send self payload = (Inr (), self)) \<and>
   (connected self \<and> sockfile self = Some f \<longrightarrow>
      send self payload =
        (Inr (), self\<lparr>sockfile := Some (f\<lparr>written := written f @ payload\<rparr>)\<rparr>))"
  by (simp add: send_def)

text \<open>The theorem on a session that is not connected and on one that is.\<close>

theorem send_guarded_witness:
  "send \<lparr>connected = False, sock = None, sockfile = None, bytesin = 0, bytesout = 0\<rparr>
      ''quit\<newline>'' =
     (Inr (), \<lparr>connected = False, sock = None, sockfile = None, bytesin = 0, bytesout = 0\<rparr>) \<and>
   send \<lparr>connected = True, sock = Some (''10.0.0.1'', 10011),
         sockfile = Some \<lparr>unread = '''', written = ''use sid=1\<newline>''\<rparr>,
         bytesin = 0, bytesout = 0\<rparr> ''quit\<newline>'' =
     (Inr (), \<lparr>connected = True, sock = Some (''10.0.0.1'', 10011),
         sockfile = Some \<lparr>unread = '''', written = ''use sid=1\<newline>quit\<newline>''\<rparr>,
         bytesin = 0, bytesout = 0\<rparr>)"
  using
    send_guarded [of "\<lparr>connected = False, sock = None, sockfile = None, bytesin = 0, bytesout = 0\<rparr>"
      "''quit\<newline>''" "\<lparr>unread = '''', written = ''''\<rparr>"]
    send_guarded [of "\<lparr>connected = True, sock = Some (''10.0.0.1'', 10011),
         sockfile = Some \<lparr>unread = '''', written = ''use sid=1\<newline>''\<rparr>,
         bytesin = 0, bytesout = 0\<rparr>" "''quit\<newline>''"
         "\<lparr>unread = '''', written = ''use sid=1\<newline>''\<rparr>"]
  by simp

text \<open>
  C8, as the code has it. When the TCP connect step fails, \<open>connect\<close> raises the
  exception of the socket library again, as it was caught, and the session is unchanged;
  in particular \<open>connected\<close> is what it was.
\<close>

theorem connect_failure_reraised:
  "connect self ip port (Inl exc) = (Inl (SocketError exc), self) \<and>
   connected (snd (connect self ip port (Inl exc))) = connected self"
  by (simp add: connect_def)

text \<open>
  C8 as stated fails: on a refused connection the exception that reaches the caller is
  the socket library's, not a \<open>ConnectionError\<close> with the host and the port.
\<close>

theorem connect_failure_counterexample:
  "fst (connect \<lparr>connected = False, sock = None, sockfile = None, bytesin = 0, bytesout = 0\<rparr>
          ''10.0.0.1'' 10011 (Inl ''Connection refused'')) \<noteq>
   Inl (ConnectionError ''10.0.0.1'' 10011)"
  by (simp add: connect_def)

text \<open>Reading lines, and the loop of \<open>send_command\<close> over data lines and a status line.\<close>

lemma readline_line:
  assumes "CHR 0x0A \<notin> set l"
  shows "readline (l @ CHR 0x0A # rest) = (l @ [CHR 0x0A], rest)"
proof -
  have "dropWhile (\<lambda>c. c \<noteq> CHR 0x0A) (l @ CHR 0x0A # rest) = CHR 0x0A # rest"
    using assms by (subst dropWhile_append2) auto
  moreover have "takeWhile (\<lambda>c. c \<noteq> CHR 0x0A) (l @ CHR 0x0A # rest) = l"
    using assms by (subst takeWhile_append2) auto
  ultimately show ?thesis by (simp add: readline_def)
qed

lemma read_loop_data_line:
  assumes "CHR 0x0A \<notin> set l" and "parse_command (l @ [CHR 0x0A]) = Inr d"
    and "d_command d = None"
  shows "read_loop (l @ CHR 0x0A # buf) ret = read_loop buf (ret @ [d_keys d])"
  using assms by (subst read_loop.simps) (simp add: readline_line)

lemma read_loop_status_line:
  assumes "CHR 0x0A \<notin> set l" and "parse_command (l @ [CHR 0x0A]) = Inr st"
    and "d_command st = Some c"
  shows "read_loop (l @ CHR 0x0A # buf) ret = Some (Inr (st, ret), buf)"
  using assms by (subst read_loop.simps) (simp add: readline_line)

lemma read_loop_data_lines:
  assumes "\<And>l. l \<in> set ls \<Longrightarrow> CHR 0x0A \<notin> set l"
    and "map (\<lambda>l. parse_command (l @ [CHR 0x0A])) ls = map Inr ds"
    and "\<And>d. d \<in> set ds \<Longrightarrow> d_command d = None"
  shows "read_loop (concat (map (\<lambda>l. l @ [CHR 0x0A]) ls) @ buf) ret =
         read_loop buf (ret @ map d_keys ds)"
  using assms
proof (induction ls arbitrary: ds ret)
  case Nil
  then show ?case by simp
next
  case (Cons l ls)
  from Cons.prems(2) obtain d ds' where ds: "ds = d # ds'"
    and d: "parse_command (l @ [CHR 0x0A]) = Inr d"
    and ds': "map (\<lambda>l. parse_command (l @ [CHR 0x0A])) ls = map Inr ds'"
    by (cases ds) auto
  have nl: "CHR 0x0A \<notin> set l" using Cons.prems(1) by simp
  have cmd: "d_command d = None" using Cons.prems(3) ds by simp
  have "read_loop (concat (map (\<lambda>l. l @ [CHR 0x0A]) (l # ls)) @ buf) ret =
        read_loop (l @ CHR 0x0A # (concat (map (\<lambda>l. l @ [CHR 0x0A]) ls) @ buf)) ret"
    by simp
  also have "\<dots> = read_loop (concat (map (\<lambda>l. l @ [CHR 0x0A]) ls) @ buf) (ret @ [d_keys d])"
    by (rule read_loop_data_line [OF nl d cmd])
  also have "\<dots> = read_loop buf ((ret @ [d_keys d]) @ map d_keys ds')"
    using Cons.prems(1,3) ds' ds by (intro Cons.IH) auto
  finally show ?case by (simp add: ds)
qed

lemma send_keeps_unread:
  assumes "sockfile self = Some f"
  shows "\<exists>self1 f1. send self payload = (Inr (), self1) \<and> sockfile self1 = Some f1 \<and>
           unread f1 = unread f"
  using assms by (simp add: send_def)

text \<open>
  C2. The unread bytes of the socket file are the data lines \<open>ls\<close>, then the line
  \<open>status\<close>, each ended by a newline, then anything. Every data line parses to a line
  with no command, and \<open>status\<close> parses to a line with the command \<open>error\<close> whose
  \<open>id\<close> is the string \<open>i\<close>. Then \<open>send_command\<close> returns, without raising: the
  key mappings of the data lines in the order received when \<open>i\<close> is \<open>0\<close> and there is
  at least one data line, and the string \<open>i\<close> otherwise, that is, when there is no data
  line or \<open>i\<close> is not \<open>0\<close>. The bytes after the status line stay unread.
\<close>

theorem send_command_result:
  assumes "sockfile self = Some f"
    and "unread f = concat (map (\<lambda>l. l @ [CHR 0x0A]) ls) @ status @ [CHR 0x0A] @ rest"
    and "\<forall>l \<in> set ls. CHR 0x0A \<notin> set l" and "CHR 0x0A \<notin> set status"
    and "map (\<lambda>l. parse_command (l @ [CHR 0x0A])) ls = map Inr ds"
    and "\<forall>d \<in> set ds. d_command d = None"
    and "parse_command (status @ [CHR 0x0A]) = Inr st"
    and "d_command st = Some ''error''"
    and "d_keys st ''id'' = Some (Single i)"
  shows "\<exists>self' f'. send_command self command keys opts =
           Some (Inr (if i = ''0'' \<and> ds \<noteq> [] then RList (map d_keys ds) else RVal (Single i)),
                 self') \<and>
         sockfile self' = Some f' \<and> unread f' = rest"
proof -
  obtain self1 f1 where s1: "send self (construct_command command keys opts @ [CHR 0x0A]) =
      (Inr (), self1)" and f1: "sockfile self1 = Some f1" and u: "unread f1 = unread f"
    using send_keeps_unread [OF assms(1)] by blast
  have "read_loop (concat (map (\<lambda>l. l @ [CHR 0x0A]) ls) @ (status @ CHR 0x0A # rest)) [] =
        read_loop (status @ CHR 0x0A # rest) ([] @ map d_keys ds)"
    using assms(3,5,6) by (intro read_loop_data_lines) auto
  then have "read_loop (unread f1) [] = read_loop (status @ CHR 0x0A # rest) ([] @ map d_keys ds)"
    by (simp add: u assms(2))
  also have "\<dots> = Some (Inr (st, map d_keys ds), rest)"
    using read_loop_status_line [OF assms(4,7,8)] by simp
  finally have loop: "read_loop (unread f1) [] = Some (Inr (st, map d_keys ds), rest)" .
  have res: "resolve st (map d_keys ds) =
      Inr (if i = ''0'' \<and> ds \<noteq> [] then RList (map d_keys ds) else RVal (Single i))"
    using assms(8,9) by (auto simp: resolve_def)
  show ?thesis
    by (simp add: send_command_def Let_def s1 f1 loop res)
qed

text \<open>
  The theorem on three cycles: two data lines and \<open>error id=0\<close>; \<open>error id=1 msg=bad\<close>
  alone, which returns the string \<open>1\<close>; and \<open>error id=0\<close> alone.
\<close>

theorem send_command_result_witness:
  "(\<exists>self' f'.
      send_command
        \<lparr>connected = True, sock = Some (''10.0.0.1'', 10011),
         sockfile = Some \<lparr>unread = ''sid=1 name=a\<newline>sid=2 name=b\<newline>error id=0 msg=ok\<newline>'',
                          written = ''''\<rparr>,
         bytesin = 0, bytesout = 0\<rparr> ''serverlist'' None None =
      Some (Inr (RList [[''sid'' \<mapsto> Single ''1'', ''name'' \<mapsto> Single ''a''],
                        [''sid'' \<mapsto> Single ''2'', ''name'' \<mapsto> Single ''b'']]), self') \<and>
      sockfile self' = Some f' \<and> unread f' = '''') \<and>
   (\<exists>self' f'.
      send_command
        \<lparr>connected = True, sock = Some (''10.0.0.1'', 10011),
         sockfile = Some \<lparr>unread = ''error id=1 msg=bad\<newline>'', written = ''''\<rparr>,
         bytesin = 0, bytesout = 0\<rparr> ''serverlist'' None None =
      Some (Inr (RVal (Single ''1'')), self') \<and>
      sockfile self' = Some f' \<and> unread f' = '''') \<and>
   (\<exists>self' f'.
      send_command
        \<lparr>connected = True, sock = Some (''10.0.0.1'', 10011),
         sockfile = Some \<lparr>unread = ''error id=0 msg=ok\<newline>'', written = ''''\<rparr>,
         bytesin = 0, bytesout = 0\<rparr> ''use'' (Some [(''sid'', Scalar (PInt 1))]) None =
      Some (Inr (RVal (Single ''0'')), self') \<and>
      sockfile self' = Some f' \<and> unread f' = '''')"
  using
    send_command_result [of
      "\<lparr>connected = True, sock = Some (''10.0.0.1'', 10011),
         sockfile = Some \<lparr>unread = ''sid=1 name=a\<newline>sid=2 name=b\<newline>error id=0 msg=ok\<newline>'',
                          written = ''''\<rparr>,
         bytesin = 0, bytesout = 0\<rparr>"
      "\<lparr>unread = ''sid=1 name=a\<newline>sid=2 name=b\<newline>error id=0 msg=ok\<newline>'', written = ''''\<rparr>"
      "[''sid=1 name=a'', ''sid=2 name=b'']" "''error id=0 msg=ok''" "''''"
      "[\<lparr>d_command = None, d_keys = [''sid'' \<mapsto> Single ''1'', ''name'' \<mapsto> Single ''a''],
         d_opts = []\<rparr>,
        \<lparr>d_command = None, d_keys = [''sid'' \<mapsto> Single ''2'', ''name'' \<mapsto> Single ''b''],
         d_opts = []\<rparr>]"
      "\<lparr>d_command = Some ''error'', d_keys = [''id'' \<mapsto> Single ''0'', ''msg'' \<mapsto> Single ''ok''],
        d_opts = []\<rparr>" "''0''" "''serverlist''" None None]
    send_command_result [of
      "\<lparr>connected = True, sock = Some (''10.0.0.1'', 10011),
         sockfile = Some \<lparr>unread = ''error id=1 msg=bad\<newline>'', written = ''''\<rparr>,
         bytesin = 0, bytesout = 0\<rparr>"
      "\<lparr>unread = ''error id=1 msg=bad\<newline>'', written = ''''\<rparr>"
      "[]" "''error id=1 msg=bad''" "''''" "[]"
      "\<lparr>d_command = Some ''error'', d_keys = [''id'' \<mapsto> Single ''1'', ''msg'' \<mapsto> Single ''bad''],
        d_opts = []\<rparr>" "''1''" "''serverlist''" None None]
    send_command_result [of
      "\<lparr>connected = True, sock = Some (''10.0.0.1'', 10011),
         sockfile = Some \<lparr>unread = ''error id=0 msg=ok\<newline>'', written = ''''\<rparr>,
         bytesin = 0, bytesout = 0\<rparr>"
      "\<lparr>unread = ''error id=0 msg=ok\<newline>'', written = ''''\<rparr>"
      "[]" "''error id=0 msg=ok''" "''''" "[]"
      "\<lparr>d_command = Some ''error'', d_keys = [''id'' \<mapsto> Single ''0'', ''msg'' \<mapsto> Single ''ok''],
        d_opts = []\<rparr>" "''0''" "''use''" "Some [(''sid'', Scalar (PInt 1))]" None]
  by (simp add: parse_eval)

text \<open>
  At the end of the stream the loop of \<open>send_command\<close> never returns: every
  \<open>readline()\<close> gives the empty string, which is appended to \<open>ret\<close> as a data line.
\<close>

lemma read_loop_needs_input:
  assumes "read_loop buf ret = Some y"
  shows "buf \<noteq> []"
  apply (rule read_loop.raw_induct [where P = "\<lambda>b r z. b \<noteq> []", OF _ assms])
  subgoal premises prems for loop b r z
  proof
    assume "b = []"
    with prems(2) have "loop [] (r @ [Map.empty]) = Some z"
      by (simp add: readline_def parse_command_def strip_def)
    from prems(1) [OF this] show False by simp
  qed
  done

lemma read_loop_end_of_stream: "read_loop [] ret = None"
  using read_loop_needs_input [of "[]" ret] by (cases "read_loop [] ret") auto

end
